theory Spec2Isabelle
  imports Complex_Main "HOL-Library.Multiset"
begin

section \<open>Data model of BeltGridClicker.py\<close>

text \<open>
  A screen position as \<open>pag.position()\<close> returns it: a named tuple of two integers.
  Such a tuple is truthy whatever its coordinates, so the test
  \<^verbatim>\<open>state["p00"] and state["pTR"] and state["pBL"]\<close> only asks whether the three
  points are set.
\<close>

record point =
  px :: int
  py :: int

text \<open>The dictionary \<open>CFG\<close>: four Python integers.\<close>

record config =
  columns :: int
  rows :: int
  speed :: int
  scan_order :: int

text \<open>The dictionary \<open>state\<close>: three optional calibration points and the running flag.\<close>

record runtime =
  p00 :: "point option"
  pTR :: "point option"
  pBL :: "point option"
  running :: bool

text \<open>The two module-level dictionaries together.\<close>

record glob =
  CFG :: config
  state :: runtime

datatype error =
    AlreadyRunning
  | IncompleteCalibration
  | InvalidCalibration
  | DegenerateCellSize
  | ZeroDivisionError
  | AttributeError
  | CollaboratorError

section \<open>Configuration\<close>

text \<open>
  The helper \<open>to_int\<close> of \<open>load_config\<close>. Its first argument is the integer read from
  the file for the key, or \<open>None\<close> when the key is absent or its text is not an integer
  (both give the default).
\<close>

definition to_int :: "int option \<Rightarrow> int \<Rightarrow> int option \<Rightarrow> int option \<Rightarrow> int" where
  "to_int loaded default_v min_v max_v =
     (let val = (case loaded of Some v \<Rightarrow> v | None \<Rightarrow> default_v);
          val = (case min_v of Some m \<Rightarrow> max m val | None \<Rightarrow> val);
          val = (case max_v of Some m \<Rightarrow> min m val | None \<Rightarrow> val)
      in val)"

text \<open>The file as parsed: the integers found for the four keys.\<close>

record loaded =
  l_columns :: "int option"
  l_rows :: "int option"
  l_speed :: "int option"
  l_scan_order :: "int option"

definition load_config :: "loaded \<Rightarrow> config \<Rightarrow> config" where
  "load_config f c =
     \<lparr> columns = to_int (l_columns f) (columns c) (Some 1) (Some 9999),
       rows = to_int (l_rows f) (rows c) (Some 1) (Some 9999),
       speed = to_int (l_speed f) (speed c) (Some 1) (Some 2),
       scan_order = to_int (l_scan_order f) (scan_order c) (Some 1) (Some 3) \<rparr>"

section \<open>Asynchronous hotkey callbacks\<close>

text \<open>
  The callbacks that can run while \<open>run_macro\<close> is sleeping or clicking:
  \<open>_panic\<close>, the three captures (each carrying the pointer position it reads) and
  \<open>reload_config_hotkey\<close> (carrying the parsed file).
\<close>

datatype signal =
    Panic
  | Capture_p00 point
  | Capture_pTR point
  | Capture_pBL point
  | Reload loaded

definition panic :: "glob \<Rightarrow> glob" where
  "panic g = (if running (state g) then g\<lparr>state := (state g)\<lparr>running := False\<rparr>\<rparr> else g)"

definition capture_p00 :: "point \<Rightarrow> glob \<Rightarrow> glob" where
  "capture_p00 p g = g\<lparr>state := (state g)\<lparr>p00 := Some p\<rparr>\<rparr>"

definition capture_pTR :: "point \<Rightarrow> glob \<Rightarrow> glob" where
  "capture_pTR p g = g\<lparr>state := (state g)\<lparr>pTR := Some p\<rparr>\<rparr>"

definition capture_pBL :: "point \<Rightarrow> glob \<Rightarrow> glob" where
  "capture_pBL p g = g\<lparr>state := (state g)\<lparr>pBL := Some p\<rparr>\<rparr>"

definition reload_config_hotkey :: "loaded \<Rightarrow> glob \<Rightarrow> glob" where
  "reload_config_hotkey f g = g\<lparr>CFG := load_config f (CFG g)\<rparr>"

fun deliver :: "signal \<Rightarrow> glob \<Rightarrow> glob" where
  "deliver Panic g = panic g"
| "deliver (Capture_p00 p) g = capture_p00 p g"
| "deliver (Capture_pTR p) g = capture_pTR p g"
| "deliver (Capture_pBL p) g = capture_pBL p g"
| "deliver (Reload f) g = reload_config_hotkey f g"

text \<open>The callbacks that arrive between two reads of the shared state, in order.\<close>

definition deliver_all :: "signal list \<Rightarrow> glob \<Rightarrow> glob" where
  "deliver_all sigs g = fold deliver sigs g"

section \<open>Geometry\<close>

text \<open>
  \<open>compute_cell_size\<close> returns \<open>(None, None)\<close> (here \<open>Inr None\<close>) when a point is
  unset or an extent is not positive, the pair of sizes otherwise; Python's true
  division raises on a zero divisor. The quotient of two integers is taken in the
  reals, that is, exactly.
\<close>

definition compute_cell_size :: "glob \<Rightarrow> error + (real \<times> real) option" where
  "compute_cell_size g =
     (case (p00 (state g), pTR (state g), pBL (state g)) of
        (Some a, Some tr, Some bl) \<Rightarrow>
          (let total_w = px tr - px a;
               total_h = py bl - py a
           in if total_w \<le> 0 \<or> total_h \<le> 0 then Inr None
              else if columns (CFG g) = 0 then Inl ZeroDivisionError
              else if rows (CFG g) = 0 then Inl ZeroDivisionError
              else Inr (Some (real_of_int total_w / real_of_int (columns (CFG g)),
                              real_of_int total_h / real_of_int (rows (CFG g)))))
      | _ \<Rightarrow> Inr None)"

text \<open>
  The centre of cell \<open>(r, c)\<close> as lines 271 and 272 compute it, before the jitter is
  added: the origin is the point \<open>p00\<close> read at that moment.
\<close>

definition center_x :: "point \<Rightarrow> real \<Rightarrow> nat \<Rightarrow> real" where
  "center_x a cell_w c = real_of_int (px a) + real c * cell_w + cell_w / 2"

definition center_y :: "point \<Rightarrow> real \<Rightarrow> nat \<Rightarrow> real" where
  "center_y a cell_h r = real_of_int (py a) + real r * cell_h + cell_h / 2"

section \<open>Sequence planner\<close>

text \<open>Python's \<open>range(n)\<close> for an integer \<open>n\<close>: empty when \<open>n \<le> 0\<close>.\<close>

definition range_py :: "int \<Rightarrow> nat list" where
  "range_py n = [0..<nat n]"

text \<open>
  \<open>random.shuffle\<close>: for \<open>i\<close> from \<open>len(x) - 1\<close> down to \<open>1\<close>, pick \<open>j\<close> below
  \<open>i + 1\<close> and swap \<open>x[i]\<close> with \<open>x[j]\<close>. The random source is a parameter: \<open>rnd i\<close>
  is the raw number drawn at index \<open>i\<close>, reduced below \<open>i + 1\<close>.
\<close>

fun shuffle_from :: "nat \<Rightarrow> (nat \<Rightarrow> nat) \<Rightarrow> 'a list \<Rightarrow> 'a list" where
  "shuffle_from 0 rnd x = x"
| "shuffle_from (Suc i) rnd x =
     (let j = rnd (Suc i) mod (Suc i + 1)
      in shuffle_from i rnd (x[Suc i := x ! j, j := x ! Suc i]))"

definition shuffle :: "(nat \<Rightarrow> nat) \<Rightarrow> 'a list \<Rightarrow> 'a list" where
  "shuffle rnd x = shuffle_from (length x - 1) rnd x"

text \<open>The list \<open>sequence\<close> of \<open>run_macro\<close>, lines 251 to 260.\<close>

definition build_sequence :: "int \<Rightarrow> int \<Rightarrow> int \<Rightarrow> (nat \<Rightarrow> nat) \<Rightarrow> (nat \<times> nat) list" where
  "build_sequence order cols rows' rnd =
     (if order = 1 then [(r, c). c \<leftarrow> range_py cols, r \<leftarrow> range_py rows']
      else if order = 2 then [(r, c). r \<leftarrow> range_py rows', c \<leftarrow> range_py cols]
      else shuffle rnd [(r, c). r \<leftarrow> range_py rows', c \<leftarrow> range_py cols])"

section \<open>Execution loop\<close>

text \<open>
  What \<open>run_macro\<close> does to the outside world is recorded as the list of its calls to
  the pointer and keyboard collaborator and of its sleeps, in order. A call is recorded
  whether it returns or raises. Sleeps are recorded by kind; their random durations are
  left out.
\<close>

datatype sleep_kind = StartDelay | ClickDelay | BurstRest | UnitRest

datatype event = KeyDown | KeyUp | MoveTo real real | Click | Sleep sleep_kind

text \<open>
  What the environment contributes to one iteration of the click loop: the callbacks
  that arrive before each read of the shared dictionaries (the check at the top, the two
  reads of \<open>state["p00"]\<close>, the burst check, the unit-rest check), the random integers
  drawn, and whether \<open>pag.moveTo\<close> and \<open>pag.click\<close> raise.
\<close>

record step_env =
  at_check :: "signal list"
  at_x :: "signal list"
  jitter_x :: int
  at_y :: "signal list"
  jitter_y :: int
  moveTo_raises :: bool
  click_raises :: bool
  at_burst :: "signal list"
  burst_draw :: int
  at_unit :: "signal list"

text \<open>The local variables of \<open>run_macro\<close> that the loop reads but never writes.\<close>

record locals =
  cell_w :: real
  cell_h :: real
  order :: int
  sequence :: "(nat \<times> nat) list"

text \<open>What the loop changes: the shared dictionaries, two counters, the calls made.\<close>

record loop_state =
  shared :: glob
  clicks :: int
  next_burst_at :: int
  trace :: "event list"

datatype flow = Continue | Break | Raise error

text \<open>One iteration of the \<open>for\<close> loop, lines 266 to 300, at index \<open>idx\<close> and pair \<open>(r, c)\<close>.\<close>

definition step :: "locals \<Rightarrow> step_env \<Rightarrow> nat \<Rightarrow> nat \<times> nat \<Rightarrow> loop_state \<Rightarrow> flow \<times> loop_state" where
  "step L e idx rc s =
     (let r = fst rc; c = snd rc;
          g1 = deliver_all (at_check e) (shared s)
      in if \<not> running (state g1) then (Break, s\<lparr>shared := g1\<rparr>)
         else
           let g2 = deliver_all (at_x e) g1
           in case p00 (state g2) of
                None \<Rightarrow> (Raise AttributeError, s\<lparr>shared := g2\<rparr>)
              | Some ax \<Rightarrow>
                  let x = center_x ax (cell_w L) c + real_of_int (jitter_x e);
                      g3 = deliver_all (at_y e) g2
                  in (case p00 (state g3) of
                       None \<Rightarrow> (Raise AttributeError, s\<lparr>shared := g3\<rparr>)
                     | Some ay \<Rightarrow>
                         let y = center_y ay (cell_h L) r + real_of_int (jitter_y e);
                             t1 = trace s @ [MoveTo x y]
                         in if moveTo_raises e
                            then (Raise CollaboratorError, s\<lparr>shared := g3, trace := t1\<rparr>)
                            else if click_raises e
                            then (Raise CollaboratorError, s\<lparr>shared := g3, trace := t1 @ [Click]\<rparr>)
                            else
                              let clicks' = clicks s + 1;
                                  g4 = deliver_all (at_burst e) g3;
                                  burst = (next_burst_at s \<le> clicks' \<and> running (state g4));
                                  t3 = t1 @ [Click, Sleep ClickDelay]
                                         @ (if burst then [Sleep BurstRest] else []);
                                  nb = (if burst then clicks' + burst_draw e else next_burst_at s);
                                  g5 = deliver_all (at_unit e) g4;
                                  unit_end = (running (state g5) \<and>
                                    ((order L = 1 \<and>
                                        (idx + 1 = length (sequence L)
                                         \<or> snd (sequence L ! (idx + 1)) \<noteq> c))
                                     \<or> (order L \<noteq> 1 \<and> order L = 2 \<and>
                                        (idx + 1 = length (sequence L)
                                         \<or> fst (sequence L ! (idx + 1)) \<noteq> r))));
                                  t5 = t3 @ (if unit_end then [Sleep UnitRest] else [])
                              in (Continue,
                                  \<lparr>shared = g5, clicks = clicks', next_burst_at = nb, trace = t5\<rparr>)))"

text \<open>
  The loop \<open>for idx, (r, c) in enumerate(sequence)\<close>: the pairs still to visit and the
  index of the first of them. \<open>break\<close> and the end of the list leave it normally, an
  exception leaves it with the error.
\<close>

fun click_loop ::
  "locals \<Rightarrow> (nat \<Rightarrow> step_env) \<Rightarrow> nat \<Rightarrow> (nat \<times> nat) list \<Rightarrow> loop_state \<Rightarrow> error option \<times> loop_state"
where
  "click_loop L env idx [] s = (None, s)"
| "click_loop L env idx (rc # rest) s =
     (case step L (env idx) idx rc s of
        (Continue, s') \<Rightarrow> click_loop L env (idx + 1) rest s'
      | (Break, s') \<Rightarrow> (None, s')
      | (Raise e, s') \<Rightarrow> (Some e, s'))"

section \<open>run_macro\<close>

text \<open>
  What the environment contributes to a whole call of \<open>run_macro\<close>: the callbacks that
  arrive during the start delay, whether \<open>keyDown\<close> and \<open>keyUp\<close> raise, the random
  source of the shuffle, the first burst threshold, and the environment of each step.
\<close>

record run_env =
  during_start :: "signal list"
  keyDown_raises :: bool
  shuffle_rnd :: "nat \<Rightarrow> nat"
  first_burst :: int
  steps :: "nat \<Rightarrow> step_env"
  keyUp_raises :: bool

text \<open>
  What a call of \<open>run_macro\<close> leaves behind: the click count of its message
  \<^verbatim>\<open>Done. Total clicks\<close> (line 302, reached when the loop ends or breaks), the reason it
  did not start or the exception that leaves it, the shared dictionaries, and the events.
\<close>

record outcome =
  reported :: "int option"
  failure :: "error option"
  final :: glob
  events :: "event list"

text \<open>
  Lines 222 to 237: the guards, and the values read into local variables before the
  start delay (cell width and height, columns, rows, scan order). Nothing is written.
  The source gives one warning for a cell size that is \<open>None\<close> or zero; the two cases
  are told apart here as \<open>InvalidCalibration\<close> and \<open>DegenerateCellSize\<close>.
\<close>

definition run_macro_entry :: "glob \<Rightarrow> error + (real \<times> real \<times> int \<times> int \<times> int)" where
  "run_macro_entry g =
     (if running (state g) then Inl AlreadyRunning
      else if \<not> (p00 (state g) \<noteq> None \<and> pTR (state g) \<noteq> None \<and> pBL (state g) \<noteq> None)
      then Inl IncompleteCalibration
      else case compute_cell_size g of
             Inl e \<Rightarrow> Inl e
           | Inr None \<Rightarrow> Inl InvalidCalibration
           | Inr (Some (w, h)) \<Rightarrow>
               if w = 0 \<or> h = 0 then Inl DegenerateCellSize
               else Inr (w, h, columns (CFG g), rows (CFG g), scan_order (CFG g)))"

text \<open>
  Lines 241 and 242: the message and \<open>time.sleep(START_DELAY)\<close>. The call has written
  nothing when it goes to sleep, and the flag is set only on line 245, after the sleep:
  during the delay the shared dictionaries are the ones the call found, changed only by
  the callbacks that have arrived.
\<close>

definition start_delay_state :: "run_env \<Rightarrow> glob \<Rightarrow> glob" where
  "start_delay_state env g = deliver_all (during_start env) g"

text \<open>
  Lines 241 to 305: the start delay, the flag, \<open>keyDown\<close> (outside the \<open>try\<close>), the
  sequence, the loop, and the \<open>finally\<close> block.
\<close>

definition run_macro_body :: "run_env \<Rightarrow> real \<times> real \<times> int \<times> int \<times> int \<Rightarrow> glob \<Rightarrow> outcome" where
  "run_macro_body env snap g =
     (case snap of (w, h, cols, rows', ord) \<Rightarrow>
        let g1 = start_delay_state env g;
            g2 = g1\<lparr>state := (state g1)\<lparr>running := True\<rparr>\<rparr>;
            t0 = [Sleep StartDelay, KeyDown]
        in if keyDown_raises env
           then \<lparr>reported = None, failure = Some CollaboratorError, final = g2, events = t0\<rparr>
           else
             let sq = build_sequence ord cols rows' (shuffle_rnd env);
                 L = \<lparr>cell_w = w, cell_h = h, order = ord, sequence = sq\<rparr>;
                 fin = click_loop L (steps env) 0 sq
                         \<lparr>shared = g2, clicks = 0, next_burst_at = first_burst env, trace = t0\<rparr>;
                 s = snd fin;
                 done = (case fst fin of None \<Rightarrow> Some (clicks s) | Some e \<Rightarrow> None);
                 t = trace s @ [KeyUp]
             in if keyUp_raises env
                then \<lparr>reported = done, failure = Some CollaboratorError, final = shared s,
                      events = t\<rparr>
                else \<lparr>reported = done, failure = fst fin,
                      final = (shared s)\<lparr>state := (state (shared s))\<lparr>running := False\<rparr>\<rparr>,
                      events = t\<rparr>)"

definition run_macro :: "run_env \<Rightarrow> glob \<Rightarrow> outcome" where
  "run_macro env g =
     (case run_macro_entry g of
        Inl e \<Rightarrow> \<lparr>reported = None, failure = Some e, final = g, events = []\<rparr>
      | Inr snap \<Rightarrow> run_macro_body env snap g)"

section \<open>Example inputs\<close>

text \<open>The grid of 24 columns and 12 rows calibrated on a rectangle of 240 by 120 pixels.\<close>

definition example_grid :: glob where
  "example_grid =
     \<lparr>CFG = \<lparr>columns = 24, rows = 12, speed = 1, scan_order = 1\<rparr>,
      state = \<lparr>p00 = Some \<lparr>px = 0, py = 0\<rparr>, pTR = Some \<lparr>px = 240, py = 0\<rparr>,
               pBL = Some \<lparr>px = 0, py = 120\<rparr>, running = False\<rparr>\<rparr>"

text \<open>A calibration whose top-right point has the abscissa of the top-left one.\<close>

definition flat_grid :: glob where
  "flat_grid =
     \<lparr>CFG = \<lparr>columns = 24, rows = 12, speed = 1, scan_order = 1\<rparr>,
      state = \<lparr>p00 = Some \<lparr>px = 100, py = 50\<rparr>, pTR = Some \<lparr>px = 100, py = 50\<rparr>,
               pBL = Some \<lparr>px = 100, py = 170\<rparr>, running = False\<rparr>\<rparr>"

text \<open>A step during which no callback arrives, nothing raises and the jitter is zero.\<close>

definition quiet_step :: step_env where
  "quiet_step =
     \<lparr>at_check = [], at_x = [], jitter_x = 0, at_y = [], jitter_y = 0,
      moveTo_raises = False, click_raises = False, at_burst = [], burst_draw = 24,
      at_unit = []\<rparr>"

text \<open>A grid of two columns and two rows, ten pixels each way, scanned column by column.\<close>

definition small_grid :: glob where
  "small_grid =
     \<lparr>CFG = \<lparr>columns = 2, rows = 2, speed = 1, scan_order = 1\<rparr>,
      state = \<lparr>p00 = Some \<lparr>px = 0, py = 0\<rparr>, pTR = Some \<lparr>px = 20, py = 0\<rparr>,
               pBL = Some \<lparr>px = 0, py = 20\<rparr>, running = False\<rparr>\<rparr>"

text \<open>A run during which no callback arrives and no call raises.\<close>

definition quiet_run :: run_env where
  "quiet_run =
     \<lparr>during_start = [], keyDown_raises = False, shuffle_rnd = (\<lambda>i. 0), first_burst = 24,
      steps = (\<lambda>i. quiet_step), keyUp_raises = False\<rparr>"

text \<open>Counting the pointer moves among the events.\<close>

fun is_move :: "event \<Rightarrow> bool" where
  "is_move (MoveTo x y) = True"
| "is_move e = False"

definition moves :: "event list \<Rightarrow> nat" where
  "moves tr = length (filter is_move tr)"

text \<open>
  A step passes when no \<open>_panic\<close> arrives before its check at the top of the loop and
  neither \<open>moveTo\<close> nor \<open>click\<close> raises. No panic arrives in the step when none arrives
  between that check and the end of the iteration.
\<close>

definition passes :: "step_env \<Rightarrow> bool" where
  "passes e \<longleftrightarrow> Panic \<notin> set (at_check e) \<and> \<not> moveTo_raises e \<and> \<not> click_raises e"

definition no_panic_in_step :: "step_env \<Rightarrow> bool" where
  "no_panic_in_step e \<longleftrightarrow>
     Panic \<notin> set (at_x e) \<and> Panic \<notin> set (at_y e)
     \<and> Panic \<notin> set (at_burst e) \<and> Panic \<notin> set (at_unit e)"

text \<open>A run whose second click raises.\<close>

definition failing_run :: run_env where
  "failing_run =
     quiet_run\<lparr>steps := (\<lambda>i. if i = 1 then quiet_step\<lparr>click_raises := True\<rparr> else quiet_step)\<rparr>"

text \<open>A run in which \<open>_panic\<close> arrives just before the check of the step of index 1.\<close>

definition cancelled_run :: run_env where
  "cancelled_run =
     quiet_run\<lparr>steps := (\<lambda>i. if i = 1 then quiet_step\<lparr>at_check := [Panic]\<rparr> else quiet_step)\<rparr>"

text \<open>
  The test of line 292 at index \<open>idx\<close> of the sequence: the step is the last one, or the
  next pair is in another column.
\<close>

definition column_ends :: "(nat \<times> nat) list \<Rightarrow> nat \<Rightarrow> bool" where
  "column_ends sq idx \<longleftrightarrow> idx + 1 = length sq \<or> snd (sq ! (idx + 1)) \<noteq> snd (sq ! idx)"

text \<open>
  A run in which \<open>capture_p00\<close> is called, with the pointer at \<open>(100, 100)\<close>, after the
  check of the step of index 1.
\<close>

definition recalibrating_run :: run_env where
  "recalibrating_run =
     quiet_run\<lparr>steps := (\<lambda>i. if i = 1
                               then quiet_step\<lparr>at_x := [Capture_p00 \<lparr>px = 100, py = 100\<rparr>]\<rparr>
                               else quiet_step)\<rparr>"

text \<open>
  For each unit rest among the events, in order, the number of clicks made before it.
\<close>

fun rest_positions :: "nat \<Rightarrow> event list \<Rightarrow> nat list" where
  "rest_positions n [] = []"
| "rest_positions n (Click # es) = rest_positions (Suc n) es"
| "rest_positions n (Sleep UnitRest # es) = n # rest_positions n es"
| "rest_positions n (e # es) = rest_positions n es"

section \<open>The planned sequence is a permutation of the grid\<close>

lemma mset_shuffle_from: "i < length x \<Longrightarrow> mset (shuffle_from i rnd x) = mset x"
proof (induction i arbitrary: x)
  case 0
  then show ?case by simp
next
  case (Suc i)
  let ?j = "rnd (Suc i) mod (Suc i + 1)"
  have "?j < Suc i + 1" by (rule mod_less_divisor) simp
  then have j: "?j < length x" using Suc.prems by linarith
  have len: "i < length (x[Suc i := x ! ?j, ?j := x ! Suc i])" using Suc.prems by simp
  have "mset (x[Suc i := x ! ?j, ?j := x ! Suc i]) = mset x"
    using mset_swap[OF j Suc.prems] by simp
  then show ?case using Suc.IH[OF len] by (simp add: Let_def)
qed

lemma mset_shuffle: "mset (shuffle rnd x) = mset x"
  by (cases x) (simp_all add: shuffle_def mset_shuffle_from)

lemma row_major_product:
  "[(r, c). r \<leftarrow> range_py R, c \<leftarrow> range_py C] = List.product (range_py R) (range_py C)"
  by (simp add: product_concat_map)

lemma col_major_product:
  "[(r, c). c \<leftarrow> range_py C, r \<leftarrow> range_py R] = map prod.swap (List.product (range_py C) (range_py R))"
  by (simp add: product_concat_map map_concat comp_def)

lemma length_range_py: "length (range_py n) = nat n"
  by (simp add: range_py_def)

lemma set_range_py: "set (range_py n) = {0..<nat n}"
  by (simp add: range_py_def)

lemma distinct_range_py: "distinct (range_py n)"
  by (simp add: range_py_def)

lemma mset_build_sequence:
  "mset (build_sequence ord C R rnd) = mset (List.product (range_py R) (range_py C))"
proof -
  have "mset (map prod.swap (List.product (range_py C) (range_py R)))
        = mset (List.product (range_py R) (range_py C))"
  proof (rule set_eq_iff_mset_eq_distinct[THEN iffD1])
    show "distinct (map prod.swap (List.product (range_py C) (range_py R)))"
      by (simp add: distinct_map distinct_product distinct_range_py)
    show "distinct (List.product (range_py R) (range_py C))"
      by (simp add: distinct_product distinct_range_py)
    show "set (map prod.swap (List.product (range_py C) (range_py R)))
          = set (List.product (range_py R) (range_py C))"
      by auto
  qed
  then show ?thesis
    by (simp add: build_sequence_def mset_shuffle row_major_product col_major_product
             del: mset_map)
qed

text \<open>
  C1. For at least one column and one row and a scan order 1, 2 or 3, the planned
  sequence has exactly columns times rows entries, no entry occurs twice, and its
  entries are exactly the pairs (row, column) of the grid. For scan order 3 this holds
  whatever numbers the random source draws.
\<close>

theorem plan_permutation:
  assumes "1 \<le> C" and "1 \<le> R" and "ord \<in> {1, 2, 3}"
  shows "length (build_sequence ord C R rnd) = nat (C * R)
         \<and> distinct (build_sequence ord C R rnd)
         \<and> set (build_sequence ord C R rnd) = {0..<nat R} \<times> {0..<nat C}"
proof -
  let ?p = "List.product (range_py R) (range_py C)"
  have m: "mset (build_sequence ord C R rnd) = mset ?p" by (rule mset_build_sequence)
  have "length (build_sequence ord C R rnd) = length ?p"
    using m by (rule mset_eq_length)
  moreover have "length ?p = nat (C * R)"
    using assms by (simp add: length_range_py nat_mult_distrib mult.commute)
  moreover have "distinct (build_sequence ord C R rnd)"
    using mset_eq_imp_distinct_iff[OF m] by (simp add: distinct_product distinct_range_py)
  moreover have "set (build_sequence ord C R rnd) = set ?p"
    using m by (rule mset_eq_setD)
  ultimately show ?thesis by (simp add: set_range_py)
qed

theorem plan_permutation_witness:
  "length (build_sequence 3 2 3 (\<lambda>i. i)) = 6
   \<and> distinct (build_sequence 3 2 3 (\<lambda>i. i))
   \<and> set (build_sequence 3 2 3 (\<lambda>i. i)) = {0..<3} \<times> {0..<2}"
proof -
  have "length (build_sequence 3 2 3 (\<lambda>i. i)) = nat (2 * 3)
         \<and> distinct (build_sequence 3 2 3 (\<lambda>i. i))
         \<and> set (build_sequence 3 2 3 (\<lambda>i. i)) = {0..<nat 3} \<times> {0..<nat 2}"
    by (rule plan_permutation) simp_all
  then show ?thesis by simp
qed

section \<open>Cell size\<close>

lemma compute_cell_size_set:
  assumes "p00 (state g) = Some a" and "pTR (state g) = Some tr" and "pBL (state g) = Some bl"
  shows "compute_cell_size g =
           (if px tr - px a \<le> 0 \<or> py bl - py a \<le> 0 then Inr None
            else if columns (CFG g) = 0 then Inl ZeroDivisionError
            else if rows (CFG g) = 0 then Inl ZeroDivisionError
            else Inr (Some (real_of_int (px tr - px a) / real_of_int (columns (CFG g)),
                            real_of_int (py bl - py a) / real_of_int (rows (CFG g)))))"
  using assms by (simp add: compute_cell_size_def Let_def)

text \<open>
  C8. With the three calibration points set, \<open>compute_cell_size\<close> returns no cell size
  exactly when \<open>pTR.x \<le> p00.x\<close> or \<open>pBL.y \<le> p00.y\<close>; with columns and rows not zero
  it returns a cell size exactly otherwise; and a start request made while no run is
  active is refused for its calibration exactly in that case.
\<close>

theorem invalid_calibration_iff:
  assumes "p00 (state g) = Some a" and "pTR (state g) = Some tr" and "pBL (state g) = Some bl"
  shows "(compute_cell_size g = Inr None \<longleftrightarrow> px tr \<le> px a \<or> py bl \<le> py a)
       \<and> (columns (CFG g) \<noteq> 0 \<and> rows (CFG g) \<noteq> 0 \<longrightarrow>
            ((\<exists>w h. compute_cell_size g = Inr (Some (w, h)))
               \<longleftrightarrow> \<not> (px tr \<le> px a \<or> py bl \<le> py a)))
       \<and> (\<not> running (state g) \<longrightarrow>
            (run_macro_entry g = Inl InvalidCalibration
               \<longleftrightarrow> px tr \<le> px a \<or> py bl \<le> py a))"
proof -
  note cs = compute_cell_size_set[OF assms]
  have 1: "compute_cell_size g = Inr None \<longleftrightarrow> px tr \<le> px a \<or> py bl \<le> py a"
    by (simp add: cs)
  have 2: "columns (CFG g) \<noteq> 0 \<and> rows (CFG g) \<noteq> 0 \<longrightarrow>
            ((\<exists>w h. compute_cell_size g = Inr (Some (w, h)))
               \<longleftrightarrow> \<not> (px tr \<le> px a \<or> py bl \<le> py a))"
    by (simp add: cs)
  have 3: "\<not> running (state g) \<longrightarrow>
            (run_macro_entry g = Inl InvalidCalibration
               \<longleftrightarrow> px tr \<le> px a \<or> py bl \<le> py a)"
    using assms by (auto simp: run_macro_entry_def cs)
  from 1 2 3 show ?thesis by blast
qed

theorem invalid_calibration_iff_witness:
  "compute_cell_size flat_grid = Inr None
   \<and> run_macro_entry flat_grid = Inl InvalidCalibration
   \<and> compute_cell_size example_grid = Inr (Some (10, 10))
   \<and> run_macro_entry example_grid \<noteq> Inl InvalidCalibration"
proof -
  have a: "p00 (state flat_grid) = Some \<lparr>px = 100, py = 50\<rparr>"
      "pTR (state flat_grid) = Some \<lparr>px = 100, py = 50\<rparr>"
      "pBL (state flat_grid) = Some \<lparr>px = 100, py = 170\<rparr>"
    by (simp_all add: flat_grid_def)
  have b: "p00 (state example_grid) = Some \<lparr>px = 0, py = 0\<rparr>"
      "pTR (state example_grid) = Some \<lparr>px = 240, py = 0\<rparr>"
      "pBL (state example_grid) = Some \<lparr>px = 0, py = 120\<rparr>"
    by (simp_all add: example_grid_def)
  have nr: "\<not> running (state flat_grid)" "\<not> running (state example_grid)"
    by (simp_all add: flat_grid_def example_grid_def)
  have "compute_cell_size example_grid = Inr (Some (10, 10))"
    by (simp add: example_grid_def compute_cell_size_def)
  then show ?thesis
    using invalid_calibration_iff[OF a] invalid_calibration_iff[OF b] nr by simp
qed

text \<open>
  C10. When the extents are positive and there is at least one column and one row, the
  cell width and height are strictly positive (the division is exact), the start
  request is never refused for a zero cell size, and it is accepted when no run is
  active.
\<close>

theorem positive_cell_size:
  assumes "p00 (state g) = Some a" and "pTR (state g) = Some tr" and "pBL (state g) = Some bl"
    and "px a < px tr" and "py a < py bl"
    and "1 \<le> columns (CFG g)" and "1 \<le> rows (CFG g)"
  shows "(\<exists>w h. compute_cell_size g = Inr (Some (w, h)) \<and> 0 < w \<and> 0 < h
            \<and> (\<not> running (state g) \<longrightarrow>
                 run_macro_entry g
                   = Inr (w, h, columns (CFG g), rows (CFG g), scan_order (CFG g))))
         \<and> run_macro_entry g \<noteq> Inl DegenerateCellSize"
proof -
  let ?w = "real_of_int (px tr - px a) / real_of_int (columns (CFG g))"
  let ?h = "real_of_int (py bl - py a) / real_of_int (rows (CFG g))"
  have cs: "compute_cell_size g = Inr (Some (?w, ?h))"
    using assms(4-7) by (simp add: compute_cell_size_set[OF assms(1-3)])
  have w: "0 < ?w" using assms(4,6) by simp
  have h: "0 < ?h" using assms(5,7) by simp
  have nz: "?w \<noteq> 0" "?h \<noteq> 0"
    by (rule less_imp_neq[THEN not_sym, OF w], rule less_imp_neq[THEN not_sym, OF h])
  have e: "run_macro_entry g
             = (if running (state g) then Inl AlreadyRunning
                else Inr (?w, ?h, columns (CFG g), rows (CFG g), scan_order (CFG g)))"
    unfolding run_macro_entry_def cs using nz assms(1-3) by (simp del: of_int_diff)
  show ?thesis using cs w h e by simp
qed

theorem positive_cell_size_witness:
  "compute_cell_size example_grid = Inr (Some (10, 10))
   \<and> run_macro_entry example_grid = Inr (10, 10, 24, 12, 1)"
proof -
  have b: "p00 (state example_grid) = Some \<lparr>px = 0, py = 0\<rparr>"
      "pTR (state example_grid) = Some \<lparr>px = 240, py = 0\<rparr>"
      "pBL (state example_grid) = Some \<lparr>px = 0, py = 120\<rparr>"
    by (simp_all add: example_grid_def)
  have c: "px \<lparr>px = 0, py = 0\<rparr> < px \<lparr>px = 240, py = 0\<rparr>"
      "py \<lparr>px = 0, py = 0\<rparr> < py \<lparr>px = 0, py = 120\<rparr>"
      "1 \<le> columns (CFG example_grid)" "1 \<le> rows (CFG example_grid)"
    by (simp_all add: example_grid_def)
  have d: "compute_cell_size example_grid = Inr (Some (10, 10))"
    by (simp add: example_grid_def compute_cell_size_def)
  have "\<not> running (state example_grid)" "columns (CFG example_grid) = 24"
       "rows (CFG example_grid) = 12" "scan_order (CFG example_grid) = 1"
    by (simp_all add: example_grid_def)
  then show ?thesis using positive_cell_size[OF b c] d by simp
qed

section \<open>Cell centres\<close>

lemma step_quiet_target:
  assumes "at_check e = []" and "at_x e = []" and "at_y e = []"
    and "running (state (shared s))" and "p00 (state (shared s)) = Some a"
  shows "trace (snd (step L e idx (r, c) s)) ! length (trace s)
           = MoveTo (center_x a (cell_w L) c + real_of_int (jitter_x e))
                    (center_y a (cell_h L) r + real_of_int (jitter_y e))"
  using assms by (simp add: step_def Let_def deliver_all_def nth_append)

text \<open>
  C7. For a valid calibration and at least one column and one row, the cell width is
  \<open>(pTR.x - p00.x) / columns\<close>, the cell height is \<open>(pBL.y - p00.y) / rows\<close>, the centre of
  cell \<open>(r, c)\<close> is \<open>(p00.x + c * w + w / 2, p00.y + r * h + h / 2)\<close>, and that is where a
  step of the loop moves the pointer when the jitter is zero and no callback arrives.
  On the grid of 24 by 12 cells over 240 by 120 pixels the cell is 10 by 10, cell
  \<open>(0, 0)\<close> has centre \<open>(5, 5)\<close> and cell \<open>(11, 23)\<close> has centre \<open>(235, 115)\<close>.
\<close>

theorem cell_geometry:
  assumes "p00 (state g) = Some a" and "pTR (state g) = Some tr" and "pBL (state g) = Some bl"
    and "px a < px tr" and "py a < py bl"
    and "1 \<le> columns (CFG g)" and "1 \<le> rows (CFG g)"
  shows "let w = real_of_int (px tr - px a) / real_of_int (columns (CFG g));
             h = real_of_int (py bl - py a) / real_of_int (rows (CFG g))
         in compute_cell_size g = Inr (Some (w, h))
            \<and> center_x a w c = real_of_int (px a) + real c * w + w / 2
            \<and> center_y a h r = real_of_int (py a) + real r * h + h / 2
            \<and> (\<forall>L e idx s.
                  cell_w L = w \<and> cell_h L = h
                  \<and> at_check e = [] \<and> at_x e = [] \<and> at_y e = []
                  \<and> jitter_x e = 0 \<and> jitter_y e = 0
                  \<and> running (state (shared s)) \<and> p00 (state (shared s)) = Some a
                  \<longrightarrow> trace (snd (step L e idx (r, c) s)) ! length (trace s)
                        = MoveTo (real_of_int (px a) + real c * w + w / 2)
                                 (real_of_int (py a) + real r * h + h / 2))"
proof -
  let ?w = "real_of_int (px tr - px a) / real_of_int (columns (CFG g))"
  let ?h = "real_of_int (py bl - py a) / real_of_int (rows (CFG g))"
  have cs: "compute_cell_size g = Inr (Some (?w, ?h))"
    using assms(4-7) by (simp add: compute_cell_size_set[OF assms(1-3)])
  have st: "trace (snd (step L e idx (r, c) s)) ! length (trace s)
              = MoveTo (real_of_int (px a) + real c * ?w + ?w / 2)
                       (real_of_int (py a) + real r * ?h + ?h / 2)"
    if "cell_w L = ?w" "cell_h L = ?h" "at_check e = []" "at_x e = []" "at_y e = []"
       "jitter_x e = 0" "jitter_y e = 0"
       "running (state (shared s))" "p00 (state (shared s)) = Some a"
    for L e idx s
    using step_quiet_target[OF that(3,4,5,8,9), of L idx r c] that(1,2,6,7)
    by (simp add: center_x_def center_y_def)
  show ?thesis
    unfolding Let_def using cs st by (simp add: center_x_def center_y_def)
qed

theorem cell_geometry_witness:
  "compute_cell_size example_grid = Inr (Some (10, 10))
   \<and> center_x \<lparr>px = 0, py = 0\<rparr> 10 0 = 5 \<and> center_y \<lparr>px = 0, py = 0\<rparr> 10 0 = 5
   \<and> center_x \<lparr>px = 0, py = 0\<rparr> 10 23 = 235 \<and> center_y \<lparr>px = 0, py = 0\<rparr> 10 11 = 115
   \<and> trace (snd (step \<lparr>cell_w = 10, cell_h = 10, order = 1, sequence = []\<rparr> quiet_step 0 (11, 23)
                   \<lparr>shared = example_grid\<lparr>state := (state example_grid)\<lparr>running := True\<rparr>\<rparr>,
                    clicks = 0, next_burst_at = 24, trace = []\<rparr>)) ! 0
       = MoveTo 235 115"
proof -
  let ?L = "\<lparr>cell_w = 10, cell_h = 10, order = 1, sequence = []\<rparr>"
  let ?s = "\<lparr>shared = example_grid\<lparr>state := (state example_grid)\<lparr>running := True\<rparr>\<rparr>,
             clicks = 0, next_burst_at = 24, trace = []\<rparr>"
  have b: "p00 (state example_grid) = Some \<lparr>px = 0, py = 0\<rparr>"
      "pTR (state example_grid) = Some \<lparr>px = 240, py = 0\<rparr>"
      "pBL (state example_grid) = Some \<lparr>px = 0, py = 120\<rparr>"
    by (simp_all add: example_grid_def)
  have c: "px \<lparr>px = 0, py = 0\<rparr> < px \<lparr>px = 240, py = 0\<rparr>"
      "py \<lparr>px = 0, py = 0\<rparr> < py \<lparr>px = 0, py = 120\<rparr>"
      "1 \<le> columns (CFG example_grid)" "1 \<le> rows (CFG example_grid)"
    by (simp_all add: example_grid_def)
  have v: "columns (CFG example_grid) = 24" "rows (CFG example_grid) = 12"
    by (simp_all add: example_grid_def)
  have q: "cell_w ?L = 10 \<and> cell_h ?L = 10
           \<and> at_check quiet_step = [] \<and> at_x quiet_step = [] \<and> at_y quiet_step = []
           \<and> jitter_x quiet_step = 0 \<and> jitter_y quiet_step = 0
           \<and> running (state (shared ?s)) \<and> p00 (state (shared ?s)) = Some \<lparr>px = 0, py = 0\<rparr>"
    by (simp add: quiet_step_def example_grid_def)
  have every: "\<forall>L e idx s.
          cell_w L = 10 \<and> cell_h L = 10
          \<and> at_check e = [] \<and> at_x e = [] \<and> at_y e = []
          \<and> jitter_x e = 0 \<and> jitter_y e = 0
          \<and> running (state (shared s)) \<and> p00 (state (shared s)) = Some \<lparr>px = 0, py = 0\<rparr>
          \<longrightarrow> trace (snd (step L e idx (11, 23) s)) ! length (trace s) = MoveTo 235 115"
    using cell_geometry[OF b c, of 23 11] unfolding Let_def v by simp
  have far: "trace (snd (step ?L quiet_step 0 (11, 23) ?s)) ! length (trace ?s) = MoveTo 235 115"
    by (rule every[THEN spec, THEN spec, THEN spec, THEN spec, THEN mp, OF q])
  have near: "center_x \<lparr>px = 0, py = 0\<rparr> 10 0 = 5 \<and> center_y \<lparr>px = 0, py = 0\<rparr> 10 0 = 5"
    by (simp add: center_x_def center_y_def)
  have cs: "compute_cell_size example_grid = Inr (Some (10, 10))
        \<and> center_x \<lparr>px = 0, py = 0\<rparr> 10 23 = 235 \<and> center_y \<lparr>px = 0, py = 0\<rparr> 10 11 = 115"
    using cell_geometry[OF b c, of 23 11] unfolding Let_def v by simp
  show ?thesis using far near cs by simp
qed

section \<open>Scan orders\<close>

text \<open>
  C9. Scan order 1 goes through the columns in the outer loop and the rows in the inner
  one: cell \<open>(r, c)\<close> is at index \<open>c * rows + r\<close>. Scan order 2 goes through the rows in
  the outer loop: cell \<open>(r, c)\<close> is at index \<open>r * columns + c\<close>. For two columns and two
  rows the orders are \<open>(0,0), (1,0), (0,1), (1,1)\<close> and \<open>(0,0), (0,1), (1,0), (1,1)\<close>.
\<close>

theorem scan_orders:
  "build_sequence 1 2 2 rnd = [(0, 0), (1, 0), (0, 1), (1, 1)]
   \<and> build_sequence 2 2 2 rnd = [(0, 0), (0, 1), (1, 0), (1, 1)]
   \<and> (\<forall>r c. r < nat R \<and> c < nat C \<longrightarrow>
         build_sequence 1 C R rnd ! (c * nat R + r) = (r, c)
         \<and> build_sequence 2 C R rnd ! (r * nat C + c) = (r, c))"
proof -
  have 1: "build_sequence 1 2 2 rnd = [(0, 0), (1, 0), (0, 1), (1, 1)]"
    by (simp add: build_sequence_def range_py_def upt_rec)
  have 2: "build_sequence 2 2 2 rnd = [(0, 0), (0, 1), (1, 0), (1, 1)]"
    by (simp add: build_sequence_def range_py_def upt_rec)
  have 3: "build_sequence 1 C R rnd ! (c * nat R + r) = (r, c)
           \<and> build_sequence 2 C R rnd ! (r * nat C + c) = (r, c)"
    if "r < nat R \<and> c < nat C" for r c
  proof -
    have r: "r < nat R" and c: "c < nat C" using that by simp_all
    have "c * nat R + r < c * nat R + nat R" using r by simp
    also have "\<dots> = Suc c * nat R" by simp
    also have "\<dots> \<le> nat C * nat R" using c by (intro mult_le_mono1) simp
    finally have i1: "c * nat R + r < length (range_py C) * length (range_py R)"
      by (simp add: length_range_py)
    have "r * nat C + c < r * nat C + nat C" using c by simp
    also have "\<dots> = Suc r * nat C" by simp
    also have "\<dots> \<le> nat R * nat C" using r by (intro mult_le_mono1) simp
    finally have i2: "r * nat C + c < length (range_py R) * length (range_py C)"
      by (simp add: length_range_py)
    have a: "build_sequence 1 C R rnd ! (c * nat R + r) = (r, c)"
      using i1 r c
      by (simp add: build_sequence_def col_major_product product_nth length_range_py)
         (simp add: range_py_def)
    have b: "build_sequence 2 C R rnd ! (r * nat C + c) = (r, c)"
      using i2 r c
      by (simp add: build_sequence_def row_major_product product_nth length_range_py)
         (simp add: range_py_def)
    from a b show ?thesis by simp
  qed
  from 1 2 3 show ?thesis by blast
qed

theorem scan_orders_witness:
  "(11::nat) < nat 12 \<and> (23::nat) < nat 24
   \<and> build_sequence 1 24 12 (\<lambda>i. 0) ! (23 * nat 12 + 11) = (11, 23)
   \<and> build_sequence 2 24 12 (\<lambda>i. 0) ! (11 * nat 24 + 23) = (11, 23)"
proof -
  have h: "(11::nat) < nat 12 \<and> (23::nat) < nat 24" by simp
  from scan_orders[of "\<lambda>i. 0" 12 24] h
  have "build_sequence 1 24 12 (\<lambda>i. 0) ! (23 * nat 12 + 11) = (11, 23)
        \<and> build_sequence 2 24 12 (\<lambda>i. 0) ! (11 * nat 24 + 23) = (11, 23)"
    by blast
  with h show ?thesis by simp
qed

section \<open>Callbacks and the shared state\<close>

lemma deliver_all_Nil [simp]: "deliver_all [] g = g"
  by (simp add: deliver_all_def)

lemma deliver_all_Cons [simp]: "deliver_all (x # xs) g = deliver_all xs (deliver x g)"
  by (simp add: deliver_all_def)

lemma running_deliver: "running (state (deliver x g)) \<longleftrightarrow> x \<noteq> Panic \<and> running (state g)"
  by (cases x)
     (simp_all add: panic_def capture_p00_def capture_pTR_def capture_pBL_def
        reload_config_hotkey_def)

lemma p00_deliver: "p00 (state g) \<noteq> None \<Longrightarrow> p00 (state (deliver x g)) \<noteq> None"
  by (cases x)
     (simp_all add: panic_def capture_p00_def capture_pTR_def capture_pBL_def
        reload_config_hotkey_def)

lemma running_deliver_all:
  "running (state (deliver_all sigs g)) \<longleftrightarrow> Panic \<notin> set sigs \<and> running (state g)"
  by (induction sigs arbitrary: g) (auto simp: running_deliver)

lemma p00_deliver_all: "p00 (state g) \<noteq> None \<Longrightarrow> p00 (state (deliver_all sigs g)) \<noteq> None"
  by (induction sigs arbitrary: g) (simp_all add: p00_deliver del: not_None_eq)

section \<open>A run on the small grid\<close>

lemma small_grid_events:
  "events (run_macro quiet_run small_grid) =
     [Sleep StartDelay, KeyDown,
      MoveTo 5 5, Click, Sleep ClickDelay,
      MoveTo 5 15, Click, Sleep ClickDelay, Sleep UnitRest,
      MoveTo 15 5, Click, Sleep ClickDelay,
      MoveTo 15 15, Click, Sleep ClickDelay, Sleep UnitRest,
      KeyUp]"
  by (simp add: run_macro_def run_macro_entry_def compute_cell_size_def small_grid_def
      run_macro_body_def start_delay_state_def quiet_run_def build_sequence_def range_py_def upt_rec step_def
      Let_def quiet_step_def center_x_def center_y_def)

section \<open>One step of the loop\<close>

lemma step_break:
  assumes "\<not> running (state (deliver_all (at_check e) (shared s)))"
  shows "fst (step L e idx rc s) = Break"
    and "clicks (snd (step L e idx rc s)) = clicks s"
    and "trace (snd (step L e idx rc s)) = trace s"
  using assms by (simp_all add: step_def Let_def)

lemma step_keys:
  "count_list (trace (snd (step L e idx rc s))) KeyUp = count_list (trace s) KeyUp
   \<and> count_list (trace (snd (step L e idx rc s))) KeyDown = count_list (trace s) KeyDown"
  by (simp add: step_def Let_def split: option.splits)

lemma step_continue:
  assumes run: "running (state (shared s))"
    and cal: "p00 (state (shared s)) \<noteq> None"
    and ok: "passes e"
  shows "fst (step L e idx rc s) = Continue"
    and "clicks (snd (step L e idx rc s)) = clicks s + 1"
    and "count_list (trace (snd (step L e idx rc s))) Click = count_list (trace s) Click + 1"
    and "moves (trace (snd (step L e idx rc s))) = moves (trace s) + 1"
    and "p00 (state (shared (snd (step L e idx rc s)))) \<noteq> None"
    and "running (state (shared (snd (step L e idx rc s)))) \<longleftrightarrow> no_panic_in_step e"
proof -
  let ?g1 = "deliver_all (at_check e) (shared s)"
  let ?g2 = "deliver_all (at_x e) ?g1"
  let ?g3 = "deliver_all (at_y e) ?g2"
  have r1: "running (state ?g1)" using run ok by (simp add: running_deliver_all passes_def)
  have "p00 (state ?g2) \<noteq> None" using cal by (intro p00_deliver_all)
  then obtain ax where ax: "p00 (state ?g2) = Some ax" by blast
  have "p00 (state ?g3) \<noteq> None" using cal by (intro p00_deliver_all)
  then obtain ay where ay: "p00 (state ?g3) = Some ay" by blast
  have nr: "\<not> moveTo_raises e" "\<not> click_raises e" using ok by (simp_all add: passes_def)
  have p5: "p00 (state (deliver_all (at_unit e) (deliver_all (at_burst e) ?g3))) \<noteq> None"
    using cal by (intro p00_deliver_all)
  show "fst (step L e idx rc s) = Continue"
    using r1 ax ay nr by (simp add: step_def Let_def)
  show "clicks (snd (step L e idx rc s)) = clicks s + 1"
    using r1 ax ay nr by (simp add: step_def Let_def)
  show "count_list (trace (snd (step L e idx rc s))) Click = count_list (trace s) Click + 1"
    using r1 ax ay nr by (simp add: step_def Let_def)
  show "moves (trace (snd (step L e idx rc s))) = moves (trace s) + 1"
    using r1 ax ay nr by (simp add: step_def Let_def moves_def)
  show "p00 (state (shared (snd (step L e idx rc s)))) \<noteq> None"
    using r1 ax ay nr p5 by (simp add: step_def Let_def del: not_None_eq)
  show "running (state (shared (snd (step L e idx rc s)))) \<longleftrightarrow> no_panic_in_step e"
    using r1 ax ay nr by (auto simp add: step_def Let_def running_deliver_all no_panic_in_step_def)
qed

section \<open>The click loop\<close>

lemma step_prefix: "\<exists>t. trace (snd (step L e idx rc s)) = trace s @ t"
  by (simp add: step_def Let_def split: option.splits)

lemma click_loop_keys:
  "count_list (trace (snd (click_loop L env idx xs s))) KeyUp = count_list (trace s) KeyUp
   \<and> count_list (trace (snd (click_loop L env idx xs s))) KeyDown = count_list (trace s) KeyDown"
proof (induction xs arbitrary: idx s)
  case Nil
  show ?case by simp
next
  case (Cons rc rest)
  obtain f s' where st: "step L (env idx) idx rc s = (f, s')"
    by (cases "step L (env idx) idx rc s")
  have k: "count_list (trace s') KeyUp = count_list (trace s) KeyUp
           \<and> count_list (trace s') KeyDown = count_list (trace s) KeyDown"
    using step_keys[of L "env idx" idx rc s] st by simp
  show ?case
  proof (cases f)
    case Continue
    then show ?thesis using st k Cons.IH[of "idx + 1" s'] by simp
  next
    case Break
    then show ?thesis using st k by simp
  next
    case (Raise x)
    then show ?thesis using st k by simp
  qed
qed

lemma click_loop_prefix: "\<exists>t. trace (snd (click_loop L env idx xs s)) = trace s @ t"
proof (induction xs arbitrary: idx s)
  case Nil
  show ?case by simp
next
  case (Cons rc rest)
  obtain f s' where st: "step L (env idx) idx rc s = (f, s')"
    by (cases "step L (env idx) idx rc s")
  obtain t where t: "trace s' = trace s @ t"
    using step_prefix[of L "env idx" idx rc s] st by auto
  show ?case
  proof (cases f)
    case Continue
    obtain u where "trace (snd (click_loop L env (idx + 1) rest s')) = trace s' @ u"
      using Cons.IH[of "idx + 1" s'] by auto
    then show ?thesis using st Continue t by simp
  next
    case Break
    then show ?thesis using st t by simp
  next
    case (Raise x)
    then show ?thesis using st t by simp
  qed
qed

text \<open>
  C6. Once \<open>keyDown\<close> has returned, whatever callbacks arrive and whichever call of the
  loop raises, \<open>run_macro\<close> calls \<open>keyUp\<close> exactly once, as its last call, after the one
  \<open>keyDown\<close> that follows the start delay.
\<close>

theorem shift_released_once:
  assumes "run_macro_entry g = Inr snap" and "\<not> keyDown_raises env"
  shows "count_list (events (run_macro env g)) KeyUp = 1
         \<and> last (events (run_macro env g)) = KeyUp
         \<and> count_list (events (run_macro env g)) KeyDown = 1
         \<and> take 2 (events (run_macro env g)) = [Sleep StartDelay, KeyDown]"
proof -
  obtain w h cols rws ord where snap: "snap = (w, h, cols, rws, ord)"
    by (cases snap) auto
  let ?g1 = "deliver_all (during_start env) g"
  let ?g2 = "?g1\<lparr>state := (state ?g1)\<lparr>running := True\<rparr>\<rparr>"
  let ?sq = "build_sequence ord cols rws (shuffle_rnd env)"
  let ?L = "\<lparr>cell_w = w, cell_h = h, order = ord, sequence = ?sq\<rparr>"
  let ?s0 = "\<lparr>shared = ?g2, clicks = 0, next_burst_at = first_burst env,
              trace = [Sleep StartDelay, KeyDown]\<rparr>"
  let ?fin = "click_loop ?L (steps env) 0 ?sq ?s0"
  have ev: "events (run_macro env g) = trace (snd ?fin) @ [KeyUp]"
    using assms by (simp add: run_macro_def run_macro_body_def start_delay_state_def snap Let_def)
  have k: "count_list (trace (snd ?fin)) KeyUp = 0" "count_list (trace (snd ?fin)) KeyDown = 1"
    using click_loop_keys[of ?L "steps env" 0 ?sq ?s0] by simp_all
  obtain t where p: "trace (snd ?fin) = [Sleep StartDelay, KeyDown] @ t"
    using click_loop_prefix[of ?L "steps env" 0 ?sq ?s0] by auto
  have c: "count_list (events (run_macro env g)) KeyUp = 1"
    "count_list (events (run_macro env g)) KeyDown = 1"
    using k by (simp_all add: ev)
  have l: "last (events (run_macro env g)) = KeyUp" by (simp add: ev)
  have "take 2 (events (run_macro env g)) = [Sleep StartDelay, KeyDown]"
    by (simp add: ev p)
  with c l show ?thesis by simp
qed

theorem shift_released_once_witness:
  "failure (run_macro failing_run small_grid) = Some CollaboratorError
   \<and> count_list (events (run_macro failing_run small_grid)) KeyUp = 1
   \<and> last (events (run_macro failing_run small_grid)) = KeyUp
   \<and> count_list (events (run_macro failing_run small_grid)) KeyDown = 1"
proof -
  have e: "run_macro_entry small_grid = Inr (10, 10, 2, 2, 1)"
    by (simp add: run_macro_entry_def compute_cell_size_def small_grid_def)
  have k: "\<not> keyDown_raises failing_run" by (simp add: failing_run_def quiet_run_def)
  have r: "failure (run_macro failing_run small_grid) = Some CollaboratorError"
    by (simp add: run_macro_def run_macro_entry_def compute_cell_size_def small_grid_def
      run_macro_body_def start_delay_state_def quiet_run_def failing_run_def build_sequence_def range_py_def upt_rec
      step_def Let_def quiet_step_def center_x_def center_y_def)
  show ?thesis using shift_released_once[OF e k] r by simp
qed

section \<open>Start requests\<close>

lemma run_macro_entry_accepts:
  assumes "run_macro_entry g = Inr snap"
  shows "\<not> running (state g)" and "p00 (state g) \<noteq> None"
  using assms by (simp_all add: run_macro_entry_def split: if_splits del: not_None_eq)

text \<open>
  The guard of line 222: a start request made while the flag is set reports
  \<open>AlreadyRunning\<close>, makes no call and no sleep, and leaves the shared state as it is.
\<close>

lemma start_refused_while_running:
  assumes "running (state g)"
  shows "run_macro env g
           = \<lparr>reported = None, failure = Some AlreadyRunning, final = g, events = []\<rparr>"
  using assms by (simp add: run_macro_def run_macro_entry_def)

text \<open>
  C3 fails on the code. The guard refuses a start request only while the flag is set,
  and the flag is set on line 245, after the start delay. A first request on the small
  grid passes the guards and goes to sleep. During its delay the flag is still unset, so
  a second request made then passes the same guards instead of reporting
  \<open>AlreadyRunning\<close> and, left alone, clicks the four cells.
\<close>

theorem second_start_in_delay_accepted:
  "run_macro_entry small_grid = Inr (10, 10, 2, 2, 1)
   \<and> \<not> running (state (start_delay_state quiet_run small_grid))
   \<and> run_macro_entry (start_delay_state quiet_run small_grid) = Inr (10, 10, 2, 2, 1)
   \<and> failure (run_macro quiet_run (start_delay_state quiet_run small_grid)) = None
   \<and> count_list (events (run_macro quiet_run (start_delay_state quiet_run small_grid))) Click
        = 4"
proof -
  have d: "start_delay_state quiet_run small_grid = small_grid"
    by (simp add: start_delay_state_def quiet_run_def)
  have e: "run_macro_entry small_grid = Inr (10, 10, 2, 2, 1)"
    by (simp add: run_macro_entry_def compute_cell_size_def small_grid_def)
  have n: "\<not> running (state small_grid)"
    by (simp add: small_grid_def)
  have r: "failure (run_macro quiet_run small_grid) = None"
    by (simp add: run_macro_def run_macro_entry_def compute_cell_size_def small_grid_def
      run_macro_body_def start_delay_state_def quiet_run_def build_sequence_def range_py_def
      upt_rec step_def Let_def quiet_step_def center_x_def center_y_def)
  have c: "count_list (events (run_macro quiet_run small_grid)) Click = 4"
    by (simp add: small_grid_events)
  from e n r c show ?thesis by (simp add: d)
qed

section \<open>Cancellation\<close>

lemma click_loop_cancel:
  assumes "k \<le> length xs"
    and "p00 (state (shared s)) \<noteq> None"
    and "\<forall>i<k. passes (env (idx + i))"
    and "\<forall>i. Suc i < k \<longrightarrow> no_panic_in_step (env (idx + i))"
    and "k < length xs \<longrightarrow>
           (\<not> running (state (shared s)) \<and> k = 0)
           \<or> Panic \<in> set (at_check (env (idx + k)))
           \<or> (0 < k \<and> \<not> no_panic_in_step (env (idx + k - 1)))"
    and "0 < k \<longrightarrow> running (state (shared s))"
  shows "fst (click_loop L env idx xs s) = None
         \<and> clicks (snd (click_loop L env idx xs s)) = clicks s + int k
         \<and> count_list (trace (snd (click_loop L env idx xs s))) Click
             = count_list (trace s) Click + k
         \<and> moves (trace (snd (click_loop L env idx xs s))) = moves (trace s) + k"
  using assms
proof (induction xs arbitrary: k idx s)
  case Nil
  then show ?case by simp
next
  case (Cons rc rest)
  obtain f s' where st: "step L (env idx) idx rc s = (f, s')"
    by (cases "step L (env idx) idx rc s")
  show ?case
  proof (cases k)
    case 0
    have "\<not> running (state (shared s)) \<or> Panic \<in> set (at_check (env idx))"
      using Cons.prems(5) 0 by simp
    then have nr: "\<not> running (state (deliver_all (at_check (env idx)) (shared s)))"
      by (auto simp: running_deliver_all)
    have "f = Break" "clicks s' = clicks s" "trace s' = trace s"
      using step_break[OF nr, of L idx rc] st by simp_all
    then show ?thesis using st 0 by simp
  next
    case (Suc k')
    have run: "running (state (shared s))" using Cons.prems(6) Suc by simp
    have pass: "passes (env idx)" using Cons.prems(3) Suc by force
    note sc = step_continue[OF run Cons.prems(2) pass, of L idx rc]
    have f: "f = Continue" using sc(1) st by simp
    have c': "clicks s' = clicks s + 1" using sc(2) st by simp
    have n': "count_list (trace s') Click = count_list (trace s) Click + 1"
      using sc(3) st by simp
    have m': "moves (trace s') = moves (trace s) + 1" using sc(4) st by simp
    have cal': "p00 (state (shared s')) \<noteq> None" using sc(5) st by simp
    have run': "running (state (shared s')) \<longleftrightarrow> no_panic_in_step (env idx)"
      using sc(6) st by simp
    have A: "k' \<le> length rest" using Cons.prems(1) Suc by simp
    have B: "\<forall>i<k'. passes (env (idx + 1 + i))"
    proof (intro allI impI)
      fix i assume "i < k'"
      then have "Suc i < k" using Suc by simp
      then have "passes (env (idx + Suc i))" using Cons.prems(3) by blast
      then show "passes (env (idx + 1 + i))" by simp
    qed
    have C: "\<forall>i. Suc i < k' \<longrightarrow> no_panic_in_step (env (idx + 1 + i))"
    proof (intro allI impI)
      fix i assume "Suc i < k'"
      then have "Suc (Suc i) < k" using Suc by simp
      then have "no_panic_in_step (env (idx + Suc i))" using Cons.prems(4) by blast
      then show "no_panic_in_step (env (idx + 1 + i))" by simp
    qed
    have E: "0 < k' \<longrightarrow> running (state (shared s'))"
    proof
      assume "0 < k'"
      then have "Suc 0 < k" using Suc by simp
      then have "no_panic_in_step (env (idx + 0))" using Cons.prems(4) by blast
      then show "running (state (shared s'))" using run' by simp
    qed
    have D: "k' < length rest \<longrightarrow>
               (\<not> running (state (shared s')) \<and> k' = 0)
               \<or> Panic \<in> set (at_check (env (idx + 1 + k')))
               \<or> (0 < k' \<and> \<not> no_panic_in_step (env (idx + 1 + k' - 1)))"
    proof
      assume "k' < length rest"
      then have "k < length (rc # rest)" using Suc by simp
      then have d: "Panic \<in> set (at_check (env (idx + k)))
                 \<or> \<not> no_panic_in_step (env (idx + k - 1))"
        using Cons.prems(5) Suc by simp
      have i1: "idx + k = idx + 1 + k'" and i2: "idx + k - 1 = idx + k'"
        using Suc by simp_all
      show "(\<not> running (state (shared s')) \<and> k' = 0)
               \<or> Panic \<in> set (at_check (env (idx + 1 + k')))
               \<or> (0 < k' \<and> \<not> no_panic_in_step (env (idx + 1 + k' - 1)))"
      proof (cases "k' = 0")
        case True
        then show ?thesis using d run' i1 i2 by auto
      next
        case False
        then show ?thesis using d i1 i2 by auto
      qed
    qed
    note ih = Cons.IH[OF A cal' B C D E, unfolded c' n' m']
    show ?thesis using st f ih Suc by simp
  qed
qed

text \<open>
  C5. Let the run have started and let \<open>k\<close> be at most the length of the planned
  sequence. If the steps before \<open>k\<close> pass their check and raise nothing, and \<open>_panic\<close>
  clears the flag after the check of step \<open>k - 1\<close> and before the check of step \<open>k\<close>,
  then the loop stops at that check: \<open>run_macro\<close> reports \<open>k\<close> clicks and has moved and
  clicked exactly \<open>k\<close> times. For \<open>k\<close> the length of the sequence there is no such check
  and the run reports all its clicks.
\<close>

theorem cancel_at_step:
  assumes "run_macro_entry g = Inr (w, h, cols, rws, ord)"
    and "\<not> keyDown_raises env"
    and "k \<le> length (build_sequence ord cols rws (shuffle_rnd env))"
    and "\<forall>i<k. passes (steps env i)"
    and "\<forall>i. Suc i < k \<longrightarrow> no_panic_in_step (steps env i)"
    and "k < length (build_sequence ord cols rws (shuffle_rnd env)) \<longrightarrow>
           Panic \<in> set (at_check (steps env k))
           \<or> (0 < k \<and> \<not> no_panic_in_step (steps env (k - 1)))"
  shows "reported (run_macro env g) = Some (int k)
         \<and> count_list (events (run_macro env g)) Click = k
         \<and> moves (events (run_macro env g)) = k"
proof -
  let ?g1 = "deliver_all (during_start env) g"
  let ?g2 = "?g1\<lparr>state := (state ?g1)\<lparr>running := True\<rparr>\<rparr>"
  let ?sq = "build_sequence ord cols rws (shuffle_rnd env)"
  let ?L = "\<lparr>cell_w = w, cell_h = h, order = ord, sequence = ?sq\<rparr>"
  let ?s0 = "\<lparr>shared = ?g2, clicks = 0, next_burst_at = first_burst env,
              trace = [Sleep StartDelay, KeyDown]\<rparr>"
  let ?fin = "click_loop ?L (steps env) 0 ?sq ?s0"
  have "p00 (state ?g1) \<noteq> None"
    using run_macro_entry_accepts(2)[OF assms(1)] by (rule p00_deliver_all)
  then have cal: "p00 (state (shared ?s0)) \<noteq> None" by (simp del: not_None_eq)
  have run: "0 < k \<longrightarrow> running (state (shared ?s0))" by simp
  have B: "\<forall>i<k. passes (steps env (0 + i))" using assms(4) by simp
  have C: "\<forall>i. Suc i < k \<longrightarrow> no_panic_in_step (steps env (0 + i))" using assms(5) by simp
  have D: "k < length ?sq \<longrightarrow>
             (\<not> running (state (shared ?s0)) \<and> k = 0)
             \<or> Panic \<in> set (at_check (steps env (0 + k)))
             \<or> (0 < k \<and> \<not> no_panic_in_step (steps env (0 + k - 1)))"
    using assms(6) by simp
  note lp = click_loop_cancel[OF assms(3) cal B C D run, of ?L]
  have ev: "events (run_macro env g) = trace (snd ?fin) @ [KeyUp]"
    using assms(1,2) by (simp add: run_macro_def run_macro_body_def start_delay_state_def Let_def)
  have res: "reported (run_macro env g)
               = (case fst ?fin of None \<Rightarrow> Some (clicks (snd ?fin)) | Some e \<Rightarrow> None)"
    using assms(1,2) by (simp add: run_macro_def run_macro_body_def start_delay_state_def Let_def)
  have 1: "reported (run_macro env g) = Some (int k)" using lp by (simp add: res)
  have 2: "count_list (events (run_macro env g)) Click = k" using lp by (simp add: ev)
  have 3: "moves (events (run_macro env g)) = k"
    using lp by (simp add: ev) (simp add: moves_def)
  from 1 2 3 show ?thesis by simp
qed

theorem cancel_at_step_witness:
  "reported (run_macro cancelled_run small_grid) = Some 1
   \<and> count_list (events (run_macro cancelled_run small_grid)) Click = 1
   \<and> moves (events (run_macro cancelled_run small_grid)) = 1"
proof -
  have e: "run_macro_entry small_grid = Inr (10, 10, 2, 2, 1)"
    by (simp add: run_macro_entry_def compute_cell_size_def small_grid_def)
  have k: "\<not> keyDown_raises cancelled_run"
    by (simp add: cancelled_run_def quiet_run_def)
  have n: "1 \<le> length (build_sequence 1 2 2 (shuffle_rnd cancelled_run))"
    by (simp add: build_sequence_def range_py_def upt_rec)
  have p: "\<forall>i<1. passes (steps cancelled_run i)"
    by (simp add: cancelled_run_def quiet_run_def quiet_step_def passes_def)
  have q: "\<forall>i. Suc i < 1 \<longrightarrow> no_panic_in_step (steps cancelled_run i)" by simp
  have c: "1 < length (build_sequence 1 2 2 (shuffle_rnd cancelled_run)) \<longrightarrow>
             Panic \<in> set (at_check (steps cancelled_run 1))
             \<or> (0 < (1::nat) \<and> \<not> no_panic_in_step (steps cancelled_run (1 - 1)))"
    by (simp add: cancelled_run_def quiet_run_def)
  show ?thesis using cancel_at_step[OF e k n p q c] by simp
qed

section \<open>Unit rests\<close>

lemma rest_positions_append:
  "rest_positions n (xs @ ys) = rest_positions n xs @ rest_positions (n + count_list xs Click) ys"
  by (induction n xs rule: rest_positions.induct) simp_all

lemma length_rest_positions: "length (rest_positions n es) = count_list es (Sleep UnitRest)"
  by (induction n es rule: rest_positions.induct) simp_all

lemma step_rest_positions:
  assumes run: "running (state (shared s))"
    and cal: "p00 (state (shared s)) \<noteq> None"
    and ok: "passes e" and np: "no_panic_in_step e"
    and ord: "order L = 1"
  shows "rest_positions 0 (trace (snd (step L e idx rc s)))
           = rest_positions 0 (trace s)
             @ (if idx + 1 = length (sequence L) \<or> snd (sequence L ! (idx + 1)) \<noteq> snd rc
                then [count_list (trace s) Click + 1] else [])"
proof -
  let ?g1 = "deliver_all (at_check e) (shared s)"
  let ?g2 = "deliver_all (at_x e) ?g1"
  let ?g3 = "deliver_all (at_y e) ?g2"
  have r1: "running (state ?g1)" using run ok by (simp add: running_deliver_all passes_def)
  have "p00 (state ?g2) \<noteq> None" using cal by (intro p00_deliver_all)
  then obtain ax where ax: "p00 (state ?g2) = Some ax" by blast
  have "p00 (state ?g3) \<noteq> None" using cal by (intro p00_deliver_all)
  then obtain ay where ay: "p00 (state ?g3) = Some ay" by blast
  have nr: "\<not> moveTo_raises e" "\<not> click_raises e" using ok by (simp_all add: passes_def)
  have r5: "running (state (deliver_all (at_unit e) (deliver_all (at_burst e) ?g3)))"
    using r1 np by (simp add: running_deliver_all no_panic_in_step_def)
  show ?thesis
    using r1 ax ay nr r5 ord by (simp add: step_def Let_def rest_positions_append)
qed

lemma click_loop_rest_positions:
  assumes "xs = drop idx (sequence L)"
    and "running (state (shared s))"
    and "p00 (state (shared s)) \<noteq> None"
    and "\<forall>i<length (sequence L). passes (env i) \<and> no_panic_in_step (env i)"
    and "order L = 1"
    and "count_list (trace s) Click = idx"
  shows "rest_positions 0 (trace (snd (click_loop L env idx xs s)))
           = rest_positions 0 (trace s)
             @ map Suc (filter (column_ends (sequence L)) [idx..<length (sequence L)])"
  using assms
proof (induction xs arbitrary: idx s)
  case Nil
  then have "length (sequence L) \<le> idx" by simp
  then show ?case by simp
next
  case (Cons rc rest)
  have lt: "idx < length (sequence L)"
  proof (rule ccontr)
    assume "\<not> idx < length (sequence L)"
    then have "drop idx (sequence L) = []" by simp
    with Cons.prems(1) show False by simp
  qed
  have rc: "rc = sequence L ! idx" and rest: "rest = drop (idx + 1) (sequence L)"
    using Cons.prems(1) lt by (simp_all add: Cons_nth_drop_Suc[symmetric])
  have ok: "passes (env idx)" "no_panic_in_step (env idx)"
    using Cons.prems(4) lt by simp_all
  obtain f s' where st: "step L (env idx) idx rc s = (f, s')"
    by (cases "step L (env idx) idx rc s")
  note sc = step_continue[OF Cons.prems(2,3) ok(1), of L idx rc]
  have f: "f = Continue" using sc(1) st by simp
  have n': "count_list (trace s') Click = idx + 1" using sc(3) st Cons.prems(6) by simp
  have cal': "p00 (state (shared s')) \<noteq> None" using sc(5) st by simp
  have run': "running (state (shared s'))" using sc(6) st ok(2) by simp
  have u: "rest_positions 0 (trace s')
             = rest_positions 0 (trace s)
               @ (if column_ends (sequence L) idx then [Suc idx] else [])"
    using step_rest_positions[OF Cons.prems(2,3) ok Cons.prems(5), of idx rc] st rc
      Cons.prems(6)
    by (simp add: column_ends_def)
  have up: "[idx..<length (sequence L)] = idx # [idx + 1..<length (sequence L)]"
    using lt by (simp add: upt_conv_Cons)
  note ih = Cons.IH[OF rest run' cal' Cons.prems(4,5) n']
  show ?case using st f ih u by (simp add: up)
qed

lemma col_major_nth:
  assumes "i < C * R"
  shows "map prod.swap (List.product [0..<C] [0..<R]) ! i = (i mod R, i div R)"
proof -
  have R: "0 < R" using assms by (cases R) simp_all
  have d: "i div R < C" using assms R by (simp add: less_mult_imp_div_less)
  have m: "i mod R < R" using R by simp
  show ?thesis using assms d m by (simp add: product_nth)
qed

lemma no_multiple_between:
  assumes "R dvd Suc i" and "C * R < Suc i" and "Suc i < C * R + R"
  shows False
proof -
  obtain m where m: "Suc i = R * m" using assms(1) by (elim dvdE)
  have "R * C < R * m" using assms(2) m by (simp add: mult.commute)
  then have 1: "0 < R \<and> C < m" by (simp only: mult_less_cancel1)
  have "R * m < R * Suc C" using assms(3) m by (simp add: mult.commute)
  then have "0 < R \<and> m < Suc C" by (simp only: mult_less_cancel1)
  with 1 show False by simp
qed

lemma column_ends_block:
  assumes "0 < R"
  shows "filter (\<lambda>i. R dvd Suc i) [C * R..<C * R + R] = [C * R + R - 1]"
proof -
  have s: "[C * R..<C * R + R] = [C * R..<C * R + R - 1] @ [C * R + R - 1]"
    using assms by (cases R) simp_all
  have "\<forall>i\<in>set [C * R..<C * R + R - 1]. \<not> R dvd Suc i"
  proof
    fix i assume "i \<in> set [C * R..<C * R + R - 1]"
    then have "C * R < Suc i" "Suc i < C * R + R" by auto
    then show "\<not> R dvd Suc i" using no_multiple_between by blast
  qed
  then have e: "filter (\<lambda>i. R dvd Suc i) [C * R..<C * R + R - 1] = []"
    by (simp add: filter_empty_conv)
  have "Suc (C * R + R - 1) = Suc C * R" using assms by simp
  then have d: "R dvd Suc (C * R + R - 1)" by (simp only: dvd_triv_right)
  show ?thesis unfolding s filter_append e using d by simp
qed

lemma filter_multiples:
  assumes "0 < R"
  shows "filter (\<lambda>i. R dvd Suc i) [0..<C * R] = map (\<lambda>c. c * R + R - 1) [0..<C]"
proof (induction C)
  case 0
  show ?case by simp
next
  case (Suc C)
  have m: "Suc C * R = C * R + R" by simp
  have a: "[0..<C * R + R] = [0..<C * R] @ [C * R..<C * R + R]"
    by (rule upt_add_eq_append) simp
  show ?case
    unfolding m a filter_append Suc column_ends_block[OF assms, of C]
    by simp
qed

lemma filter_column_ends:
  assumes "0 < R"
  shows "filter (column_ends (map prod.swap (List.product [0..<C] [0..<R]))) [0..<C * R]
           = map (\<lambda>c. c * R + R - 1) [0..<C]"
proof -
  let ?sq = "map prod.swap (List.product [0..<C] [0..<R])"
  have "column_ends ?sq i \<longleftrightarrow> R dvd Suc i" if "i \<in> set [0..<C * R]" for i
  proof -
    have i: "i < C * R" using that by simp
    show ?thesis
    proof (cases "Suc i = C * R")
      case True
      then show ?thesis by (simp add: column_ends_def)
    next
      case False
      then have n: "Suc i < C * R" using i by simp
      have "column_ends ?sq i \<longleftrightarrow> Suc i div R \<noteq> i div R"
        using False col_major_nth[OF i] col_major_nth[OF n]
        by (simp add: column_ends_def)
      also have "\<dots> \<longleftrightarrow> Suc i mod R = 0" by (simp add: div_Suc)
      also have "\<dots> \<longleftrightarrow> R dvd Suc i" by (simp add: dvd_eq_mod_eq_0)
      finally show ?thesis .
    qed
  qed
  then have "filter (column_ends ?sq) [0..<C * R] = filter (\<lambda>i. R dvd Suc i) [0..<C * R]"
    by (intro filter_cong) simp_all
  then show ?thesis using filter_multiples[OF assms, of C] by simp
qed

lemma rest_after_each_column:
  assumes "0 < R"
  shows "map Suc (map (\<lambda>c. c * R + R - 1) [0..<C]) = map (\<lambda>c. (c + 1) * R) [0..<C]"
  using assms by simp

text \<open>
  C2, as the code has it. Under scan order 1, with at least one column and one row, a
  run that is neither cancelled nor interrupted by an exception takes as many unit
  rests as there are columns, one after each column, the last one included: the rest of
  column \<open>c\<close> comes when exactly \<open>(c + 1) * rows\<close> clicks have been made, that is after the
  click on the last row of the column and before the first click of the next column.
\<close>

theorem unit_rests_per_column:
  assumes "run_macro_entry g = Inr (w, h, cols, rws, 1)"
    and "1 \<le> cols" and "1 \<le> rws"
    and "\<not> keyDown_raises env"
    and "\<forall>i<nat cols * nat rws. passes (steps env i) \<and> no_panic_in_step (steps env i)"
  shows "count_list (events (run_macro env g)) (Sleep UnitRest) = nat cols
         \<and> rest_positions 0 (events (run_macro env g))
             = map (\<lambda>c. (c + 1) * nat rws) [0..<nat cols]
         \<and> count_list (events (run_macro env g)) Click = nat cols * nat rws"
proof -
  let ?g1 = "deliver_all (during_start env) g"
  let ?g2 = "?g1\<lparr>state := (state ?g1)\<lparr>running := True\<rparr>\<rparr>"
  let ?sq = "build_sequence 1 cols rws (shuffle_rnd env)"
  let ?L = "\<lparr>cell_w = w, cell_h = h, order = 1, sequence = ?sq\<rparr>"
  let ?s0 = "\<lparr>shared = ?g2, clicks = 0, next_burst_at = first_burst env,
              trace = [Sleep StartDelay, KeyDown]\<rparr>"
  let ?fin = "click_loop ?L (steps env) 0 ?sq ?s0"
  have sq: "?sq = map prod.swap (List.product [0..<nat cols] [0..<nat rws])"
    by (simp add: build_sequence_def col_major_product) (simp add: range_py_def)
  have len: "length ?sq = nat cols * nat rws" by (simp add: sq)
  have "p00 (state ?g1) \<noteq> None"
    using run_macro_entry_accepts(2)[OF assms(1)] by (rule p00_deliver_all)
  then have cal: "p00 (state (shared ?s0)) \<noteq> None" by (simp del: not_None_eq)
  have run: "running (state (shared ?s0))" by simp
  have d: "?sq = drop 0 (sequence ?L)" by simp
  have q: "\<forall>i<length (sequence ?L). passes (steps env i) \<and> no_panic_in_step (steps env i)"
    using assms(5) len by simp
  have o: "order ?L = 1" by simp
  have z: "count_list (trace ?s0) Click = 0" by simp
  have R: "0 < nat rws" using assms(3) by simp
  have "rest_positions 0 (trace (snd ?fin))
          = rest_positions 0 (trace ?s0)
            @ map Suc (filter (column_ends (sequence ?L)) [0..<length (sequence ?L)])"
    by (rule click_loop_rest_positions[OF d run cal q o z])
  also have "\<dots> = map Suc (filter (column_ends ?sq) [0..<nat cols * nat rws])"
    using len by simp
  also have "\<dots> = map Suc (map (\<lambda>c. c * nat rws + nat rws - 1) [0..<nat cols])"
    unfolding sq by (simp only: filter_column_ends[OF R])
  also have "\<dots> = map (\<lambda>c. (c + 1) * nat rws) [0..<nat cols]"
    by (rule rest_after_each_column[OF R])
  finally have p: "rest_positions 0 (trace (snd ?fin))
                     = map (\<lambda>c. (c + 1) * nat rws) [0..<nat cols]" .
  have k1: "\<forall>i<nat cols * nat rws. passes (steps env (0 + i))" using assms(5) by simp
  have k2: "\<forall>i. Suc i < nat cols * nat rws \<longrightarrow> no_panic_in_step (steps env (0 + i))"
    using assms(5) by simp
  have k3: "nat cols * nat rws < length ?sq \<longrightarrow>
             (\<not> running (state (shared ?s0)) \<and> nat cols * nat rws = 0)
             \<or> Panic \<in> set (at_check (steps env (0 + nat cols * nat rws)))
             \<or> (0 < nat cols * nat rws
                 \<and> \<not> no_panic_in_step (steps env (0 + nat cols * nat rws - 1)))"
    using len by simp
  have k4: "0 < nat cols * nat rws \<longrightarrow> running (state (shared ?s0))" by simp
  have k0: "nat cols * nat rws \<le> length ?sq" using len by simp
  note lp = click_loop_cancel[OF k0 cal k1 k2 k3 k4, of ?L]
  have ev: "events (run_macro env g) = trace (snd ?fin) @ [KeyUp]"
    using assms(1,4)
    by (simp add: run_macro_def run_macro_body_def start_delay_state_def Let_def)
  have 1: "rest_positions 0 (events (run_macro env g))
             = map (\<lambda>c. (c + 1) * nat rws) [0..<nat cols]"
    using p by (simp add: ev rest_positions_append)
  have 2: "count_list (events (run_macro env g)) (Sleep UnitRest) = nat cols"
    using 1 length_rest_positions[of 0 "events (run_macro env g)"] by simp
  have 3: "count_list (events (run_macro env g)) Click = nat cols * nat rws"
    using lp by (simp add: ev)
  from 1 2 3 show ?thesis by simp
qed

theorem unit_rests_per_column_witness:
  "count_list (events (run_macro quiet_run small_grid)) (Sleep UnitRest) = 2
   \<and> rest_positions 0 (events (run_macro quiet_run small_grid)) = [2, 4]
   \<and> count_list (events (run_macro quiet_run small_grid)) Click = 4"
proof -
  have e: "run_macro_entry small_grid = Inr (10, 10, 2, 2, 1)"
    by (simp add: run_macro_entry_def compute_cell_size_def small_grid_def)
  have d: "(1::int) \<le> 2" by simp
  have k: "\<not> keyDown_raises quiet_run" by (simp add: quiet_run_def)
  have q: "\<forall>i<nat 2 * nat 2. passes (steps quiet_run i) \<and> no_panic_in_step (steps quiet_run i)"
    by (simp add: quiet_run_def quiet_step_def passes_def no_panic_in_step_def)
  have u: "[0..<2] = [0, 1]" by (simp add: upt_rec)
  show ?thesis using unit_rests_per_column[OF e d d k q] by (simp add: u)
qed

text \<open>
  C2, as the claim has it, fails: on the grid of two rows and two columns, run to
  completion under scan order 1, the unit rest is taken twice, not once, and the second
  one follows the last click of the final column.
\<close>

theorem unit_rests_small_grid:
  "rows (CFG small_grid) = 2 \<and> columns (CFG small_grid) = 2 \<and> scan_order (CFG small_grid) = 1
   \<and> reported (run_macro quiet_run small_grid) = Some 4
   \<and> count_list (events (run_macro quiet_run small_grid)) (Sleep UnitRest) = 2
   \<and> count_list (events (run_macro quiet_run small_grid)) (Sleep UnitRest)
        \<noteq> nat (rows (CFG small_grid)) - 1
   \<and> drop 14 (events (run_macro quiet_run small_grid)) = [Sleep ClickDelay, Sleep UnitRest, KeyUp]"
proof -
  have r: "reported (run_macro quiet_run small_grid) = Some 4"
    by (simp add: run_macro_def run_macro_entry_def compute_cell_size_def small_grid_def
      run_macro_body_def start_delay_state_def quiet_run_def build_sequence_def range_py_def upt_rec step_def
      Let_def quiet_step_def center_x_def center_y_def)
  have c: "rows (CFG small_grid) = 2 \<and> columns (CFG small_grid) = 2
           \<and> scan_order (CFG small_grid) = 1"
    by (simp add: small_grid_def)
  show ?thesis using r c by (simp add: small_grid_events)
qed

section \<open>Calibration written during a run\<close>

text \<open>
  C4 fails on the code. Two runs start from the same calibration and configuration and
  draw the same random numbers. In the second, \<open>capture_p00\<close> is called during the step
  of index 1. The cell size stays the one computed at the start, but line 271 reads
  \<open>state["p00"]\<close> again at each step: the second target is \<open>(5, 15)\<close> in the first run and
  \<open>(105, 115)\<close> in the second.
\<close>

theorem capture_moves_inflight_target:
  "events (run_macro quiet_run small_grid) ! 5 = MoveTo 5 15
   \<and> events (run_macro recalibrating_run small_grid) ! 5 = MoveTo 105 115"
proof -
  have "events (run_macro recalibrating_run small_grid) ! 5 = MoveTo 105 115"
    by (simp add: run_macro_def run_macro_entry_def compute_cell_size_def small_grid_def
      run_macro_body_def start_delay_state_def quiet_run_def recalibrating_run_def build_sequence_def range_py_def
      upt_rec step_def Let_def quiet_step_def center_x_def center_y_def capture_p00_def)
  then show ?thesis by (simp add: small_grid_events)
qed

end
